theory Spec2Isabelle
  imports Main "HOL-Library.Multiset" "HOL-Library.Sublist"
begin

section \<open>Replica placement: the data model\<close>

text \<open>
  A shallow embedding of \<^verbatim>\<open>locator/abstract_replication_strategy.cc\<close>.
  Tokens are values of any linear order \<open>'t\<close>, node addresses values of any type \<open>'a\<close>.
  Every throw of the source is a value of \<open>error\<close>.
\<close>

datatype error =
    Configuration_exception
  | Invalid_argument
  | Out_of_range
  | Runtime_error

text \<open>
  \<^verbatim>\<open>range_bound<token>\<close> is a value with an inclusive flag; \<^verbatim>\<open>dht::token_range\<close> has an
  optional start and an optional end, an absent bound standing for the infinite one.
\<close>

datatype 't range_bound = Bound (bound_value: 't) (is_inclusive: bool)

datatype 't token_range =
  Token_range (range_start: "'t range_bound option") (range_end: "'t range_bound option")

text \<open>
  Modelled from the spec: \<^verbatim>\<open>token_metadata\<close> (the ring snapshot) is declared outside the
  file under verification. The spec gives it a sorted collection of tokens mapped to owning
  addresses, a version counter bumped on every mutation, and the set of addresses being
  replaced.
\<close>

record ('t, 'a) token_metadata =
  sorted_tokens :: "'t list"
  token_to_endpoint_map :: "'t \<rightharpoonup> 'a"
  ring_version :: nat
  replacing_endpoints :: "'a list"

text \<open>The ring's data invariant: the token vector is strictly increasing.\<close>

definition ring_wf :: "('t::linorder, 'a) token_metadata \<Rightarrow> bool" where
  "ring_wf tm = sorted_wrt (<) (sorted_tokens tm)"

text \<open>
  Modelled from the spec: \<^verbatim>\<open>token_metadata::first_token\<close> is the smallest token of the ring
  that is at or after the search token, wrapping to the smallest token overall if there is
  none. An empty ring has no such token: the lookup fails.
\<close>

definition first_token :: "('t::linorder, 'a) token_metadata \<Rightarrow> 't \<Rightarrow> error + 't" where
  "first_token tm search_token =
     (case sorted_tokens tm of
        [] \<Rightarrow> Inl Runtime_error
      | t0 # ts \<Rightarrow>
          (case find (\<lambda>t. search_token \<le> t) (t0 # ts) of
             Some t \<Rightarrow> Inr t
           | None \<Rightarrow> Inr t0))"

text \<open>Modelled from the spec: the replacement bookkeeping of the ring.\<close>

definition is_any_node_being_replaced :: "('t, 'a) token_metadata \<Rightarrow> bool" where
  "is_any_node_being_replaced tm = (replacing_endpoints tm \<noteq> [])"

definition is_being_replaced :: "('t, 'a) token_metadata \<Rightarrow> 'a \<Rightarrow> bool" where
  "is_being_replaced tm ep = (ep \<in> set (replacing_endpoints tm))"

text \<open>
  The placement policy is the pure virtual \<^verbatim>\<open>calculate_natural_endpoints\<close>: a parameter of
  every operation below.
\<close>

type_synonym ('t, 'a) policy = "'t \<Rightarrow> ('t, 'a) token_metadata \<Rightarrow> 'a list"

text \<open>
  The mutable members of a strategy instance. The two counters are declared outside the
  source file; they are natural numbers here, and nothing below depends on their width.
\<close>

record ('t, 'a) strategy_state =
  cached_endpoints :: "'t \<rightharpoonup> 'a list"
  last_invalidated_ring_version :: nat
  cache_hits_count :: nat

section \<open>Validation of the replication factor\<close>

definition isdigit :: "char \<Rightarrow> bool" where
  "isdigit c = (48 \<le> (of_char c :: nat) \<and> (of_char c :: nat) \<le> 57)"

definition isspace :: "char \<Rightarrow> bool" where
  "isspace c = ((of_char c :: nat) = 32 \<or> (9 \<le> (of_char c :: nat) \<and> (of_char c :: nat) \<le> 13))"

definition digit_value :: "char \<Rightarrow> int" where
  "digit_value c = int (of_char c) - 48"

definition digits_value :: "string \<Rightarrow> int" where
  "digits_value ds = foldl (\<lambda>acc c. acc * 10 + digit_value c) 0 ds"

definition LONG_MAX :: int where
  "LONG_MAX = 9223372036854775807"

definition LONG_MIN :: int where
  "LONG_MIN = - 9223372036854775808"

text \<open>
  \<^verbatim>\<open>std::stol\<close> in base 10 with a 64-bit \<^verbatim>\<open>long\<close>: leading white space, an optional sign,
  then the longest run of digits; \<^verbatim>\<open>invalid_argument\<close> when there is no digit,
  \<^verbatim>\<open>out_of_range\<close> when the value does not fit.
\<close>

definition stol :: "string \<Rightarrow> error + int" where
  "stol s =
     (let s1 = dropWhile isspace s;
          neg = (s1 \<noteq> [] \<and> hd s1 = CHR ''-'');
          s2 = (if s1 \<noteq> [] \<and> (hd s1 = CHR ''-'' \<or> hd s1 = CHR ''+'') then tl s1 else s1);
          ds = takeWhile isdigit s2
      in if ds = [] then Inl Invalid_argument
         else
           (let v = (if neg then - digits_value ds else digits_value ds)
            in if v < LONG_MIN \<or> LONG_MAX < v then Inl Out_of_range else Inr v))"

definition validate_replication_factor :: "string \<Rightarrow> error + unit" where
  "validate_replication_factor rf =
     (if rf = [] \<or> list_ex (\<lambda>c. \<not> isdigit c) rf then Inl Configuration_exception
      else
        (case stol rf of
           Inl _ \<Rightarrow> Inl Configuration_exception
         | Inr _ \<Rightarrow> Inr ()))"

section \<open>The endpoint cache\<close>

text \<open>
  \<^verbatim>\<open>get_cached_endpoints\<close>: the whole cache is dropped when the recorded ring version
  differs from the ring's.
\<close>

definition get_cached_endpoints ::
  "('t, 'a) token_metadata \<Rightarrow> ('t, 'a) strategy_state \<Rightarrow> ('t, 'a) strategy_state" where
  "get_cached_endpoints tm st =
     (if last_invalidated_ring_version st \<noteq> ring_version tm
      then st\<lparr>cached_endpoints := Map.empty,
              last_invalidated_ring_version := ring_version tm\<rparr>
      else st)"

text \<open>
  \<^verbatim>\<open>get_natural_endpoints\<close> returns the endpoints and the updated members. The throw of
  \<^verbatim>\<open>first_token\<close> happens before anything is touched.
\<close>

definition get_natural_endpoints ::
  "('t::linorder, 'a) policy \<Rightarrow> ('t, 'a) token_metadata \<Rightarrow> ('t, 'a) strategy_state \<Rightarrow> 't
     \<Rightarrow> (error + 'a list) \<times> ('t, 'a) strategy_state" where
  "get_natural_endpoints calculate_natural_endpoints tm st search_token =
     (case first_token tm search_token of
        Inl e \<Rightarrow> (Inl e, st)
      | Inr key_token \<Rightarrow>
          (let st1 = get_cached_endpoints tm st
           in case cached_endpoints st1 key_token of
                None \<Rightarrow>
                  (let endpoints = calculate_natural_endpoints search_token tm
                   in (Inr endpoints,
                       st1\<lparr>cached_endpoints := (cached_endpoints st1)(key_token \<mapsto> endpoints)\<rparr>))
              | Some res \<Rightarrow>
                  (Inr res, st1\<lparr>cache_hits_count := cache_hits_count st1 + 1\<rparr>)))"

text \<open>A freshly constructed strategy: empty cache, both counters zero.\<close>

definition initial_state :: "('t, 'a) strategy_state" where
  "initial_state =
     \<lparr>cached_endpoints = Map.empty, last_invalidated_ring_version = 0, cache_hits_count = 0\<rparr>"

text \<open>
  What happens to a strategy over time: the ring is replaced by a changed one, or a token is
  looked up. \<open>run\<close> returns the ring and the members after a history.
\<close>

datatype ('t, 'a) event = Ring_changed "('t, 'a) token_metadata" | Lookup 't

fun run ::
  "('t::linorder, 'a) policy \<Rightarrow> ('t, 'a) token_metadata \<Rightarrow> ('t, 'a) strategy_state
     \<Rightarrow> ('t, 'a) event list \<Rightarrow> ('t, 'a) token_metadata \<times> ('t, 'a) strategy_state" where
  "run calc tm st [] = (tm, st)"
| "run calc tm st (Ring_changed tm' # es) = run calc tm' st es"
| "run calc tm st (Lookup t # es) = run calc tm (snd (get_natural_endpoints calc tm st t)) es"

text \<open>The ring's contract: every change of the ring raises its version.\<close>

fun versions_increase :: "('t, 'a) token_metadata \<Rightarrow> ('t, 'a) event list \<Rightarrow> bool" where
  "versions_increase tm [] = True"
| "versions_increase tm (Ring_changed tm' # es) =
     (ring_version tm < ring_version tm' \<and> versions_increase tm' es)"
| "versions_increase tm (Lookup t # es) = versions_increase tm es"

text \<open>A policy whose answer depends on the search token only through its bucket key.\<close>

definition bucket_determined :: "('t::linorder, 'a) policy \<Rightarrow> bool" where
  "bucket_determined calc =
     (\<forall>tm t k. first_token tm t = Inr k \<longrightarrow> calc t tm = calc k tm)"

text \<open>
  The cache invariant: the recorded version is not ahead of the ring's, and while the two
  agree every cached list is what the policy computes on this ring for its bucket key.
\<close>

definition cache_inv ::
  "('t, 'a) policy \<Rightarrow> ('t, 'a) token_metadata \<Rightarrow> ('t, 'a) strategy_state \<Rightarrow> bool" where
  "cache_inv calc tm st =
     (last_invalidated_ring_version st \<le> ring_version tm
      \<and> (last_invalidated_ring_version st = ring_version tm \<longrightarrow>
           (\<forall>k eps. cached_endpoints st k = Some eps \<longrightarrow> eps = calc k tm)))"

text \<open>
  Two policies to run the operations on. The first gives the single owner of the token's
  bucket; the second picks one of three nodes from the search token itself.
\<close>

definition single_replica_policy :: "('t::linorder, 'a) policy" where
  "single_replica_policy t tm =
     (case first_token tm t of
        Inl _ \<Rightarrow> []
      | Inr k \<Rightarrow> (case token_to_endpoint_map tm k of None \<Rightarrow> [] | Some a \<Rightarrow> [a]))"

definition modulo_policy :: "(int, nat) policy" where
  "modulo_policy t tm = [nat (t mod 3)]"

definition ring3 :: "(int, nat) token_metadata" where
  "ring3 =
     \<lparr>sorted_tokens = [10, 50, 90],
      token_to_endpoint_map = [10 \<mapsto> 1, 50 \<mapsto> 2, 90 \<mapsto> 3],
      ring_version = 0,
      replacing_endpoints = []\<rparr>"

text \<open>The ring 10, 50, 90 after token 10 has moved to node 4.\<close>

definition ring3_moved :: "(int, nat) token_metadata" where
  "ring3_moved = ring3\<lparr>token_to_endpoint_map := [10 \<mapsto> 4, 50 \<mapsto> 2, 90 \<mapsto> 3], ring_version := 1\<rparr>"

text \<open>The ring 10, 50, 90 with node 1 marked as being replaced.\<close>

definition ring3_replacing :: "(int, nat) token_metadata" where
  "ring3_replacing = ring3\<lparr>ring_version := 1, replacing_endpoints := [1]\<rparr>"

text \<open>A policy that never names an endpoint.\<close>

definition empty_policy :: "('t, 'a) policy" where
  "empty_policy t tm = []"

text \<open>A policy that names node 1 for every token but 50, and nobody for 50.\<close>

definition gap_policy :: "(int, nat) policy" where
  "gap_policy t tm = (if t = 50 then [] else [1])"

section \<open>The replacement filter\<close>

text \<open>
  \<^verbatim>\<open>boost::range::remove_if\<close> is \<^verbatim>\<open>std::remove_if\<close>: kept elements are moved to the front
  over a write index, and the write index is returned as the new end.
\<close>

function remove_if_loop :: "('a \<Rightarrow> bool) \<Rightarrow> 'a list \<Rightarrow> nat \<Rightarrow> nat \<Rightarrow> 'a list \<times> nat" where
  "remove_if_loop p xs first i =
     (if i < length xs
      then (if \<not> p (xs ! i)
            then remove_if_loop p (xs[first := xs ! i]) (Suc first) (Suc i)
            else remove_if_loop p xs first (Suc i))
      else (xs, first))"
  by pat_completeness auto
termination
  by (relation "measure (\<lambda>(p, xs, first, i). length xs - i)") auto

definition remove_if :: "('a \<Rightarrow> bool) \<Rightarrow> 'a list \<Rightarrow> 'a list \<times> nat" where
  "remove_if p xs = remove_if_loop p xs 0 0"

text \<open>\<^verbatim>\<open>v.erase(it, v.end())\<close>.\<close>

definition erase_to_end :: "'a list \<Rightarrow> nat \<Rightarrow> 'a list" where
  "erase_to_end v it = take it v"

text \<open>
  \<^verbatim>\<open>allow\<close> is the virtual \<^verbatim>\<open>allow_remove_node_being_replaced_from_natural_endpoints\<close>.
  The filter works on the vector returned by value, never on the cache.
\<close>

definition get_natural_endpoints_without_node_being_replaced ::
  "('t::linorder, 'a) policy \<Rightarrow> bool \<Rightarrow> ('t, 'a) token_metadata \<Rightarrow> ('t, 'a) strategy_state \<Rightarrow> 't
     \<Rightarrow> (error + 'a list) \<times> ('t, 'a) strategy_state" where
  "get_natural_endpoints_without_node_being_replaced calc allow tm st search_token =
     (case get_natural_endpoints calc tm st search_token of
        (Inl e, st') \<Rightarrow> (Inl e, st')
      | (Inr natural_endpoints, st') \<Rightarrow>
          (if is_any_node_being_replaced tm \<and> allow
           then (let (v, it) = remove_if (is_being_replaced tm) natural_endpoints
                 in (Inr (erase_to_end v it), st'))
           else (Inr natural_endpoints, st')))"

section \<open>Range algebra\<close>

definition insert_token_range_to_sorted_container_while_unwrapping ::
  "'t::linorder \<Rightarrow> 't \<Rightarrow> 't token_range list \<Rightarrow> 't token_range list" where
  "insert_token_range_to_sorted_container_while_unwrapping prev_tok tok ret =
     (if prev_tok < tok
      then
        (let pos = length ret;
             pos = (if ret \<noteq> [] \<and> range_end (ret ! (pos - 1)) = None then pos - 1 else pos)
         in take pos ret
            @ [Token_range (Some (Bound prev_tok False)) (Some (Bound tok True))]
            @ drop pos ret)
      else
        Token_range None (Some (Bound tok True))
          # (ret @ [Token_range (Some (Bound prev_tok False)) None]))"

text \<open>
  The loop of \<^verbatim>\<open>get_ranges\<close>. The inner loop inserts once, at the first endpoint equal to
  \<open>ep\<close>, and breaks: it inserts exactly when \<open>ep\<close> is among the endpoints.
\<close>

fun get_ranges_loop ::
  "('t::linorder, 'a) policy \<Rightarrow> 'a \<Rightarrow> ('t, 'a) token_metadata \<Rightarrow> 't \<Rightarrow> 't list
     \<Rightarrow> 't token_range list \<Rightarrow> 't token_range list" where
  "get_ranges_loop calc ep tm prev_tok [] ret = ret"
| "get_ranges_loop calc ep tm prev_tok (tok # toks) ret =
     get_ranges_loop calc ep tm tok toks
       (if ep \<in> set (calc tok tm)
        then insert_token_range_to_sorted_container_while_unwrapping prev_tok tok ret
        else ret)"

text \<open>
  The source has no throw here and no check that the ring has a token: \<open>prev_tok\<close> starts
  as \<^verbatim>\<open>sorted_tokens().back()\<close>, and the loop uses it only when the vector has an element.
\<close>

definition get_ranges ::
  "('t::linorder, 'a) policy \<Rightarrow> 'a \<Rightarrow> ('t, 'a) token_metadata \<Rightarrow> error + 't token_range list" where
  "get_ranges calc ep tm =
     Inr (get_ranges_loop calc ep tm (last (sorted_tokens tm)) (sorted_tokens tm) [])"

fun get_primary_ranges_loop ::
  "('t::linorder, 'a) policy \<Rightarrow> 'a \<Rightarrow> ('t, 'a) token_metadata \<Rightarrow> 't \<Rightarrow> 't list
     \<Rightarrow> 't token_range list \<Rightarrow> 't token_range list" where
  "get_primary_ranges_loop calc ep tm prev_tok [] ret = ret"
| "get_primary_ranges_loop calc ep tm prev_tok (tok # toks) ret =
     get_primary_ranges_loop calc ep tm tok toks
       (let eps = calc tok tm
        in if length eps > 0 \<and> eps ! 0 = ep
           then insert_token_range_to_sorted_container_while_unwrapping prev_tok tok ret
           else ret)"

definition get_primary_ranges ::
  "('t::linorder, 'a) policy \<Rightarrow> 'a \<Rightarrow> ('t, 'a) token_metadata \<Rightarrow> error + 't token_range list" where
  "get_primary_ranges calc ep tm =
     Inr (get_primary_ranges_loop calc ep tm (last (sorted_tokens tm)) (sorted_tokens tm) [])"

subsection \<open>The common skeleton of the two loops\<close>

text \<open>
  Both loops walk the token vector and insert the range ending at a token when a predicate
  of the token holds; \<open>bounded_pieces\<close> lists the bounded ranges such a walk emits.
\<close>

fun emit_loop :: "('t::linorder \<Rightarrow> bool) \<Rightarrow> 't \<Rightarrow> 't list \<Rightarrow> 't token_range list \<Rightarrow> 't token_range list" where
  "emit_loop P prev_tok [] ret = ret"
| "emit_loop P prev_tok (tok # toks) ret =
     emit_loop P tok toks
       (if P tok then insert_token_range_to_sorted_container_while_unwrapping prev_tok tok ret
        else ret)"

fun bounded_pieces :: "('t \<Rightarrow> bool) \<Rightarrow> 't \<Rightarrow> 't list \<Rightarrow> 't token_range list" where
  "bounded_pieces P prev_tok [] = []"
| "bounded_pieces P prev_tok (tok # toks) =
     (if P tok then [Token_range (Some (Bound prev_tok False)) (Some (Bound tok True))] else [])
     @ bounded_pieces P tok toks"

subsection \<open>The ranges a walk of the ring has to emit\<close>

text \<open>
  The range from \<open>prev_tok\<close>, exclusive, to \<open>tok\<close>, inclusive: one bounded range, or, when
  it crosses the end of the token space, its two unbounded pieces.
\<close>

definition token_pieces :: "'t::linorder \<Rightarrow> 't \<Rightarrow> 't token_range list" where
  "token_pieces prev_tok tok =
     (if prev_tok < tok
      then [Token_range (Some (Bound prev_tok False)) (Some (Bound tok True))]
      else [Token_range None (Some (Bound tok True)),
            Token_range (Some (Bound prev_tok False)) None])"

text \<open>
  What the spec asks of a walk with predicate \<open>P\<close>: a token for which \<open>P\<close> holds contributes
  the range from its predecessor to itself, and any other token contributes nothing.
\<close>

fun expected_ranges :: "('t::linorder \<Rightarrow> bool) \<Rightarrow> 't \<Rightarrow> 't list \<Rightarrow> 't token_range list" where
  "expected_ranges P prev_tok [] = []"
| "expected_ranges P prev_tok (tok # toks) =
     (if P tok then token_pieces prev_tok tok else []) @ expected_ranges P tok toks"

text \<open>
  The same ranges in the order of a start-sorted collection, for a strictly increasing
  token vector: the wrapped range of the first token around the bounded ranges of the others.
\<close>

definition unwrapped_ranges :: "('t::linorder \<Rightarrow> bool) \<Rightarrow> 't list \<Rightarrow> 't token_range list" where
  "unwrapped_ranges P toks =
     (case toks of
        [] \<Rightarrow> []
      | t0 # ts \<Rightarrow>
          (if P t0 then [Token_range None (Some (Bound t0 True))] else [])
          @ bounded_pieces P t0 ts
          @ (if P t0 then [Token_range (Some (Bound (last (t0 # ts)) False)) None] else []))"

subsection \<open>What the claims say about range collections\<close>

text \<open>A token lies in a range when it is after the start bound and before the end bound.\<close>

definition after_start :: "'t::linorder range_bound option \<Rightarrow> 't \<Rightarrow> bool" where
  "after_start b x =
     (case b of
        None \<Rightarrow> True
      | Some s \<Rightarrow> bound_value s < x \<or> (is_inclusive s \<and> bound_value s = x))"

definition before_end :: "'t::linorder range_bound option \<Rightarrow> 't \<Rightarrow> bool" where
  "before_end b x =
     (case b of
        None \<Rightarrow> True
      | Some e \<Rightarrow> x < bound_value e \<or> (is_inclusive e \<and> x = bound_value e))"

definition range_contains :: "'t::linorder token_range \<Rightarrow> 't \<Rightarrow> bool" where
  "range_contains r x = (after_start (range_start r) x \<and> before_end (range_end r) x)"

text \<open>In how many ranges of a collection a token lies.\<close>

definition cover_count :: "'t::linorder token_range list \<Rightarrow> 't \<Rightarrow> nat" where
  "cover_count ret x = length (filter (\<lambda>r. range_contains r x) ret)"

text \<open>
  The order of start bounds: the absent bound (minus infinity) is below every token, and
  at the same token an inclusive start is below an exclusive one.
\<close>

definition start_less :: "'t::linorder token_range \<Rightarrow> 't token_range \<Rightarrow> bool" where
  "start_less r s =
     (case range_start s of
        None \<Rightarrow> False
      | Some b \<Rightarrow>
          (case range_start r of
             None \<Rightarrow> True
           | Some a \<Rightarrow>
               bound_value a < bound_value b
               \<or> (bound_value a = bound_value b \<and> is_inclusive a \<and> \<not> is_inclusive b)))"

definition bounded_range :: "'t token_range \<Rightarrow> bool" where
  "bounded_range r = (range_start r \<noteq> None \<and> range_end r \<noteq> None)"

text \<open>
  The wrapped range of a ring with token vector \<open>toks\<close>, as its two unbounded pieces around
  bounded ranges only.
\<close>

definition unwrapped_form :: "'t list \<Rightarrow> 't token_range list \<Rightarrow> bool" where
  "unwrapped_form toks ret =
     (2 \<le> length ret
      \<and> hd ret = Token_range None (Some (Bound (hd toks) True))
      \<and> last ret = Token_range (Some (Bound (last toks) False)) None
      \<and> list_all bounded_range (butlast (tl ret)))"

text \<open>
  A start-sorted collection that either holds the wrapped range as its two unbounded pieces
  around bounded ranges, or holds bounded ranges only.
\<close>

definition sorted_unwrapped :: "'t::linorder list \<Rightarrow> bool \<Rightarrow> 't token_range list \<Rightarrow> bool" where
  "sorted_unwrapped toks wraps ret =
     (sorted_wrt start_less ret
      \<and> (if wraps then unwrapped_form toks ret else list_all bounded_range ret))"

section \<open>Pending ranges\<close>

text \<open>
  Modelled from the spec: \<^verbatim>\<open>token_metadata::clone_only_token_map\<close> copies the token map
  only; version and replacement state are left default.
\<close>

definition clone_only_token_map :: "('t, 'a) token_metadata \<Rightarrow> ('t, 'a) token_metadata" where
  "clone_only_token_map tm =
     \<lparr>sorted_tokens = sorted_tokens tm,
      token_to_endpoint_map = token_to_endpoint_map tm,
      ring_version = 0,
      replacing_endpoints = []\<rparr>"

text \<open>
  Modelled from the spec: \<^verbatim>\<open>token_metadata::update_normal_tokens\<close> inserts the tokens,
  mapped to the endpoint, into the ring it is called on; as a mutation it bumps the version
  of that ring.
\<close>

definition update_normal_tokens ::
  "'t::linorder list \<Rightarrow> 'a \<Rightarrow> ('t, 'a) token_metadata \<Rightarrow> ('t, 'a) token_metadata" where
  "update_normal_tokens tokens endpoint tm =
     tm\<lparr>sorted_tokens :=
          fold (\<lambda>t ts. if t \<in> set ts then ts else insort t ts) tokens (sorted_tokens tm),
        token_to_endpoint_map :=
          fold (\<lambda>t m. m(t \<mapsto> endpoint)) tokens (token_to_endpoint_map tm),
        ring_version := ring_version tm + 1\<rparr>"

text \<open>
  Modelled from the spec: \<^verbatim>\<open>token_metadata::get_primary_ranges_for\<close> gives the range from
  the token's predecessor on the ring to the token, the wrapping one as its two unbounded
  pieces.
\<close>

definition get_predecessor :: "('t::linorder, 'a) token_metadata \<Rightarrow> 't \<Rightarrow> 't" where
  "get_predecessor tm t =
     (case takeWhile (\<lambda>x. x < t) (sorted_tokens tm) of
        [] \<Rightarrow> last (t # sorted_tokens tm)
      | x # xs \<Rightarrow> last (x # xs))"

definition get_primary_ranges_for :: "('t::linorder, 'a) token_metadata \<Rightarrow> 't \<Rightarrow> 't token_range list" where
  "get_primary_ranges_for tm t =
     (let left = get_predecessor tm t
      in if left < t then [Token_range (Some (Bound left False)) (Some (Bound t True))]
         else [Token_range None (Some (Bound t True)), Token_range (Some (Bound left False)) None])"

text \<open>
  \<^verbatim>\<open>get_address_ranges\<close>. The \<^verbatim>\<open>unordered_multimap\<close> is the list of its pairs, in the order
  of the \<^verbatim>\<open>emplace\<close> calls; the order in which C++ iterates it is unspecified, so results
  built from it are compared as multisets.
\<close>

definition get_address_ranges ::
  "('t::linorder, 'a) policy \<Rightarrow> ('t, 'a) token_metadata \<Rightarrow> ('a \<times> 't token_range) list" where
  "get_address_ranges calc tm =
     concat (map (\<lambda>t.
       (let r = get_primary_ranges_for tm t;
            eps = calc t tm
        in concat (map (\<lambda>ep. map (\<lambda>rng. (ep, rng)) r) eps)))
       (sorted_tokens tm))"

text \<open>
  Ring objects live in a store and are passed by address, as the C++ reference is. The
  clone is a new object of the store; it is dropped when the function returns.
\<close>

type_synonym ('t, 'a) store = "('t, 'a) token_metadata list"

definition get_pending_address_ranges ::
  "('t::linorder, 'a) policy \<Rightarrow> ('t, 'a) store \<Rightarrow> nat \<Rightarrow> 't list \<Rightarrow> 'a
     \<Rightarrow> 't token_range list \<times> ('t, 'a) store" where
  "get_pending_address_ranges calc s tm pending_tokens pending_address =
     (let temp = length s;
          s1 = s @ [clone_only_token_map (s ! tm)];
          s2 = s1[temp := update_normal_tokens pending_tokens pending_address (s1 ! temp)];
          ret = map snd (filter (\<lambda>x. fst x = pending_address) (get_address_ranges calc (s2 ! temp)))
      in (ret, take temp s2))"

text \<open>
  The simulated ring and the ranges attributed to an address in it, in the words of the
  spec: the token map cloned, the candidate tokens inserted for the candidate address, and
  for every token of that ring the primary ranges of the token, once for each time the
  address stands in the token's endpoint list.
\<close>

definition simulated_ring ::
  "('t::linorder, 'a) token_metadata \<Rightarrow> 't list \<Rightarrow> 'a \<Rightarrow> ('t, 'a) token_metadata" where
  "simulated_ring tm candidate_tokens candidate_address =
     update_normal_tokens candidate_tokens candidate_address (clone_only_token_map tm)"

definition ranges_attributed_to ::
  "('t::linorder, 'a) policy \<Rightarrow> ('t, 'a) token_metadata \<Rightarrow> 'a \<Rightarrow> 't token_range list" where
  "ranges_attributed_to calc sim address =
     concat (map (\<lambda>t.
       concat (map (\<lambda>ep. if ep = address then get_primary_ranges_for sim t else []) (calc t sim)))
       (sorted_tokens sim))"

section \<open>Validation: proofs\<close>

lemma digit_value_nonneg: "isdigit c \<Longrightarrow> 0 \<le> digit_value c"
  by (simp add: isdigit_def digit_value_def)

lemma foldl_digits_nonneg:
  "list_all isdigit ds \<Longrightarrow> 0 \<le> acc \<Longrightarrow> 0 \<le> foldl (\<lambda>acc c. acc * 10 + digit_value c) acc ds"
proof (induction ds arbitrary: acc)
  case Nil
  then show ?case by simp
next
  case (Cons c ds)
  from Cons.prems have "0 \<le> acc * 10 + digit_value c"
    using digit_value_nonneg [of c] by simp
  with Cons show ?case by simp
qed

lemma digits_value_nonneg: "list_all isdigit ds \<Longrightarrow> 0 \<le> digits_value ds"
  unfolding digits_value_def by (rule foldl_digits_nonneg) simp_all

lemma isdigit_not_space: "isdigit c \<Longrightarrow> \<not> isspace c"
  by (auto simp: isdigit_def isspace_def)

lemma isdigit_not_sign: "isdigit c \<Longrightarrow> c \<noteq> CHR ''-'' \<and> c \<noteq> CHR ''+''"
  by (auto simp: isdigit_def)

lemma stol_digits:
  assumes "rf \<noteq> []" and "list_all isdigit rf"
  shows "stol rf = (if LONG_MAX < digits_value rf then Inl Out_of_range else Inr (digits_value rf))"
proof -
  from assms obtain c cs where rf: "rf = c # cs" by (cases rf) auto
  with assms have c: "isdigit c" by simp
  have s1: "dropWhile isspace rf = rf"
    using rf c isdigit_not_space by simp
  have tw: "takeWhile isdigit rf = rf"
    using assms(2) by (simp add: list_all_iff)
  have nn: "0 \<le> digits_value rf"
    using assms(2) by (rule digits_value_nonneg)
  have lo: "\<not> digits_value rf < LONG_MIN"
    using nn by (simp add: LONG_MIN_def)
  have sg: "hd rf \<noteq> CHR ''-''" "hd rf \<noteq> CHR ''+''"
    using rf c isdigit_not_sign by auto
  show ?thesis
    unfolding stol_def s1 Let_def by (simp add: sg tw lo assms(1))
qed

text \<open>
  C9. The replication-factor string is accepted exactly when it is non-empty, all of its
  characters are decimal digits and \<^verbatim>\<open>std::stol\<close> parses it to a non-negative value (which,
  for a digit string, means that its value fits a 64-bit \<^verbatim>\<open>long\<close>); every other string
  raises the configuration exception. \<^verbatim>\<open>"3"\<close> is accepted; \<^verbatim>\<open>"-1"\<close>, \<^verbatim>\<open>"abc"\<close> and
  \<^verbatim>\<open>""\<close> are refused.
\<close>

theorem validate_replication_factor_iff:
  "(validate_replication_factor rf = Inr () \<longleftrightarrow>
      rf \<noteq> [] \<and> list_all isdigit rf \<and> (\<exists>n. 0 \<le> n \<and> stol rf = Inr n))
   \<and> (validate_replication_factor rf = Inr () \<or>
        validate_replication_factor rf = Inl Configuration_exception)
   \<and> (validate_replication_factor rf = Inr () \<longleftrightarrow>
        rf \<noteq> [] \<and> list_all isdigit rf \<and> digits_value rf \<le> LONG_MAX)
   \<and> validate_replication_factor ''3'' = Inr ()
   \<and> validate_replication_factor ''-1'' = Inl Configuration_exception
   \<and> validate_replication_factor ''abc'' = Inl Configuration_exception
   \<and> validate_replication_factor '''' = Inl Configuration_exception"
proof -
  have ex: "list_ex (\<lambda>c. \<not> isdigit c) rf \<longleftrightarrow> \<not> list_all isdigit rf"
    by (simp add: list_ex_iff list_all_iff)
  have A: "validate_replication_factor rf = Inr () \<longleftrightarrow>
      rf \<noteq> [] \<and> list_all isdigit rf \<and> digits_value rf \<le> LONG_MAX"
  proof (cases "rf \<noteq> [] \<and> list_all isdigit rf")
    case True
    then show ?thesis
      using stol_digits [of rf] by (simp add: validate_replication_factor_def ex)
  next
    case False
    then show ?thesis
      by (auto simp: validate_replication_factor_def ex)
  qed
  have B: "rf \<noteq> [] \<and> list_all isdigit rf \<and> digits_value rf \<le> LONG_MAX \<longleftrightarrow>
      rf \<noteq> [] \<and> list_all isdigit rf \<and> (\<exists>n. 0 \<le> n \<and> stol rf = Inr n)"
  proof (cases "rf \<noteq> [] \<and> list_all isdigit rf")
    case True
    then show ?thesis
      using stol_digits [of rf] digits_value_nonneg [of rf] by auto
  next
    case False
    then show ?thesis by auto
  qed
  have C: "validate_replication_factor rf = Inr () \<or>
        validate_replication_factor rf = Inl Configuration_exception"
    by (simp add: validate_replication_factor_def split: sum.splits)
  have D: "validate_replication_factor ''3'' = Inr ()"
    by (simp add: validate_replication_factor_def stol_def isdigit_def isspace_def
        digits_value_def digit_value_def LONG_MAX_def LONG_MIN_def)
  have E: "validate_replication_factor ''-1'' = Inl Configuration_exception"
    by (simp add: validate_replication_factor_def isdigit_def)
  have F: "validate_replication_factor ''abc'' = Inl Configuration_exception"
    by (simp add: validate_replication_factor_def isdigit_def)
  have G: "validate_replication_factor '''' = Inl Configuration_exception"
    by (simp add: validate_replication_factor_def)
  from A B C D E F G show ?thesis by simp
qed

theorem validate_replication_factor_iff_witness:
  "validate_replication_factor ''12'' = Inr ()
   \<and> list_all isdigit ''12'' \<and> digits_value ''12'' = 12
   \<and> validate_replication_factor ''99999999999999999999'' = Inl Configuration_exception
   \<and> validate_replication_factor ''+3'' = Inl Configuration_exception"
proof -
  have d: "list_all isdigit ''12''" "list_all isdigit ''99999999999999999999''"
    by (simp_all add: isdigit_def)
  have v: "digits_value ''12'' = 12"
    by (simp add: digits_value_def digit_value_def)
  have big: "\<not> digits_value ''99999999999999999999'' \<le> LONG_MAX"
    by (simp add: digits_value_def digit_value_def LONG_MAX_def)
  have plus: "\<not> list_all isdigit ''+3''"
    by (simp add: isdigit_def)
  show ?thesis
    using validate_replication_factor_iff [of "''12''"]
      validate_replication_factor_iff [of "''99999999999999999999''"]
      validate_replication_factor_iff [of "''+3''"] d v big plus
    by (auto simp: LONG_MAX_def)
qed

section \<open>Range algebra: proofs\<close>

lemma get_ranges_loop_emit:
  "get_ranges_loop calc ep tm prev_tok toks ret =
   emit_loop (\<lambda>tok. ep \<in> set (calc tok tm)) prev_tok toks ret"
  by (induction toks arbitrary: prev_tok ret) simp_all

lemma get_primary_ranges_loop_emit:
  "get_primary_ranges_loop calc ep tm prev_tok toks ret =
   emit_loop (\<lambda>tok. length (calc tok tm) > 0 \<and> calc tok tm ! 0 = ep) prev_tok toks ret"
  by (induction toks arbitrary: prev_tok ret) (simp_all add: Let_def)

lemma insert_bounded:
  assumes "prev_tok < tok"
    and "list_all (\<lambda>r. range_end r \<noteq> None) M"
    and "B = [] \<or> (\<exists>h. B = [h] \<and> range_end h = None)"
  shows "insert_token_range_to_sorted_container_while_unwrapping prev_tok tok (M @ B) =
         M @ [Token_range (Some (Bound prev_tok False)) (Some (Bound tok True))] @ B"
proof (cases "B = []")
  case True
  show ?thesis
  proof (cases "M = []")
    case True
    with \<open>B = []\<close> assms(1) show ?thesis
      by (simp add: insert_token_range_to_sorted_container_while_unwrapping_def)
  next
    case False
    then have "M ! (length M - 1) = last M" by (simp add: last_conv_nth)
    moreover from False assms(2) have "range_end (last M) \<noteq> None"
      by (simp add: list_all_iff)
    ultimately show ?thesis
      using \<open>B = []\<close> assms(1) False
      by (auto simp: insert_token_range_to_sorted_container_while_unwrapping_def Let_def)
  qed
next
  case False
  with assms(3) obtain h where B: "B = [h]" and h: "range_end h = None" by auto
  have "(M @ [h]) ! (length (M @ [h]) - 1) = h" by simp
  then show ?thesis
    using B h assms(1)
    by (simp add: insert_token_range_to_sorted_container_while_unwrapping_def Let_def)
qed

lemma emit_tail:
  assumes "sorted_wrt (<) (prev_tok # toks)"
    and "list_all (\<lambda>r. range_end r \<noteq> None) M"
    and "B = [] \<or> (\<exists>h. B = [h] \<and> range_end h = None)"
  shows "emit_loop P prev_tok toks (M @ B) = M @ bounded_pieces P prev_tok toks @ B"
  using assms
proof (induction toks arbitrary: prev_tok M)
  case Nil
  then show ?case by simp
next
  case (Cons tok toks)
  from Cons.prems(1) have lt: "prev_tok < tok" and srt: "sorted_wrt (<) (tok # toks)" by auto
  show ?case
  proof (cases "P tok")
    case True
    let ?r = "Token_range (Some (Bound prev_tok False)) (Some (Bound tok True))"
    have ins: "insert_token_range_to_sorted_container_while_unwrapping prev_tok tok (M @ B)
        = (M @ [?r]) @ B"
      using insert_bounded [OF lt Cons.prems(2) Cons.prems(3)] by simp
    have M': "list_all (\<lambda>r. range_end r \<noteq> None) (M @ [?r])"
      using Cons.prems(2) by simp
    show ?thesis
      using True Cons.IH [OF srt M' Cons.prems(3)] ins by simp
  next
    case False
    then show ?thesis
      using Cons.IH [OF srt Cons.prems(2) Cons.prems(3)] by simp
  qed
qed

lemma last_not_less_first:
  "sorted_wrt (<) (t0 # ts) \<Longrightarrow> \<not> last (t0 # ts) < (t0::'t::linorder)"
  by (cases ts rule: rev_cases) (auto simp: sorted_wrt_append)

lemma emit_all:
  assumes "sorted_wrt (<) (t0 # ts)"
  shows "emit_loop P (last (t0 # ts)) (t0 # ts) [] =
     (if P t0 then [Token_range None (Some (Bound t0 True))] else [])
     @ bounded_pieces P t0 ts
     @ (if P t0 then [Token_range (Some (Bound (last (t0 # ts)) False)) None] else [])"
proof (cases "P t0")
  case True
  let ?lo = "Token_range None (Some (Bound t0 True))"
  let ?hi = "Token_range (Some (Bound (last (t0 # ts)) False)) None"
  have first: "insert_token_range_to_sorted_container_while_unwrapping (last (t0 # ts)) t0 []
      = [?lo] @ [?hi]"
    using last_not_less_first [OF assms]
    by (simp add: insert_token_range_to_sorted_container_while_unwrapping_def)
  have "emit_loop P t0 ts ([?lo] @ [?hi]) = [?lo] @ bounded_pieces P t0 ts @ [?hi]"
    by (rule emit_tail [OF assms]) simp_all
  with True first show ?thesis by (simp del: last.simps)
next
  case False
  have "emit_loop P t0 ts ([] @ []) = [] @ bounded_pieces P t0 ts @ []"
    by (rule emit_tail [OF assms]) simp_all
  with False show ?thesis by simp
qed

lemma bounded_pieces_shape:
  assumes "sorted_wrt (<) ((prev_tok::'t::linorder) # toks)"
    and "r \<in> set (bounded_pieces P prev_tok toks)"
  shows "\<exists>p t. r = Token_range (Some (Bound p False)) (Some (Bound t True))
           \<and> prev_tok \<le> p \<and> p < t \<and> t \<in> set toks \<and> P t"
  using assms
proof (induction toks arbitrary: prev_tok)
  case Nil
  then show ?case by simp
next
  case (Cons tok toks)
  from Cons.prems(1) have lt: "prev_tok < tok" and srt: "sorted_wrt (<) (tok # toks)" by auto
  from Cons.prems(2) consider
    (here) "P tok" "r = Token_range (Some (Bound prev_tok False)) (Some (Bound tok True))"
    | (later) "r \<in> set (bounded_pieces P tok toks)"
    by (auto split: if_splits)
  then show ?case
  proof cases
    case here
    with lt show ?thesis by auto
  next
    case later
    from Cons.IH [OF srt later] obtain p t where
      "r = Token_range (Some (Bound p False)) (Some (Bound t True))"
      "tok \<le> p" "p < t" "t \<in> set toks" "P t" by blast
    with lt show ?thesis by auto
  qed
qed

lemma bounded_pieces_bounded:
  "sorted_wrt (<) ((prev_tok::'t::linorder) # toks)
     \<Longrightarrow> list_all bounded_range (bounded_pieces P prev_tok toks)"
  unfolding list_all_iff
  using bounded_pieces_shape [of prev_tok toks _ P] by (fastforce simp: bounded_range_def)

lemma bounded_pieces_sorted:
  "sorted_wrt (<) ((prev_tok::'t::linorder) # toks)
     \<Longrightarrow> sorted_wrt start_less (bounded_pieces P prev_tok toks)"
proof (induction toks arbitrary: prev_tok)
  case Nil
  then show ?case by simp
next
  case (Cons tok toks)
  from Cons.prems have lt: "prev_tok < tok" and srt: "sorted_wrt (<) (tok # toks)" by auto
  have "start_less (Token_range (Some (Bound prev_tok False)) (Some (Bound tok True))) r"
    if "r \<in> set (bounded_pieces P tok toks)" for r
    using bounded_pieces_shape [OF srt that] lt by (auto simp: start_less_def)
  with Cons.IH [OF srt] show ?case by (simp add: sorted_wrt_append)
qed

lemma sorted_last_greatest:
  "sorted_wrt (<) (t0 # ts) \<Longrightarrow> t \<in> set (t0 # ts) \<Longrightarrow> t \<le> last (t0 # (ts::'t::linorder list))"
proof (induction ts arbitrary: t0 t)
  case Nil
  then show ?case by simp
next
  case (Cons a ts)
  from Cons.prems(1) have lt: "t0 < a" and srt: "sorted_wrt (<) (a # ts)" by auto
  have la: "a \<le> last (a # ts)" by (rule Cons.IH [OF srt]) simp
  show ?case
  proof (cases "t = t0")
    case True
    with lt la show ?thesis by simp
  next
    case False
    with Cons.prems(2) have "t \<in> set (a # ts)" by simp
    from Cons.IH [OF srt this] show ?thesis by simp
  qed
qed

lemma emit_all_sorted_unwrapped:
  assumes "sorted_wrt (<) (t0 # ts)"
  shows "sorted_unwrapped (t0 # ts) (P t0) (emit_loop P (last (t0 # ts)) (t0 # ts) [])"
proof -
  let ?mid = "bounded_pieces P t0 ts"
  let ?lo = "Token_range None (Some (Bound t0 True))"
  let ?hi = "Token_range (Some (Bound (last (t0 # ts)) False)) None"
  have mid_sorted: "sorted_wrt start_less ?mid" by (rule bounded_pieces_sorted [OF assms])
  have mid_bounded: "list_all bounded_range ?mid" by (rule bounded_pieces_bounded [OF assms])
  have lo_mid: "start_less ?lo r" if "r \<in> set ?mid" for r
    using bounded_pieces_shape [OF assms that] by (auto simp: start_less_def)
  have mid_hi: "start_less r ?hi" if "r \<in> set ?mid" for r
  proof -
    from bounded_pieces_shape [OF assms that] obtain p t where
      r: "r = Token_range (Some (Bound p False)) (Some (Bound t True))"
      and "p < t" "t \<in> set ts" by blast
    with sorted_last_greatest [OF assms, of t] have "p < last (t0 # ts)" by simp
    with r show ?thesis by (simp add: start_less_def)
  qed
  have lo_hi: "start_less ?lo ?hi" by (simp add: start_less_def)
  show ?thesis
  proof (cases "P t0")
    case True
    have eq: "emit_loop P (last (t0 # ts)) (t0 # ts) [] = ?lo # ?mid @ [?hi]"
      using emit_all [OF assms, of P] True by simp
    have "sorted_wrt start_less (?lo # ?mid @ [?hi])"
      using mid_sorted lo_mid mid_hi lo_hi by (auto simp: sorted_wrt_append)
    moreover have "unwrapped_form (t0 # ts) (?lo # ?mid @ [?hi])"
      using mid_bounded by (simp add: unwrapped_form_def butlast_append)
    ultimately show ?thesis
      unfolding eq sorted_unwrapped_def using True by simp
  next
    case False
    have eq: "emit_loop P (last (t0 # ts)) (t0 # ts) [] = ?mid"
      using emit_all [OF assms, of P] False by simp
    show ?thesis
      unfolding eq sorted_unwrapped_def using False mid_sorted mid_bounded by simp
  qed
qed

text \<open>
  C2. On a well-formed, non-empty ring \<^verbatim>\<open>get_ranges\<close> and \<^verbatim>\<open>get_primary_ranges\<close> return
  a collection that is sorted by start bound. When the address owns the wrapped range (the
  one ending at the first token) the collection is the piece from minus infinity to the
  first token, then bounded ranges only, then the piece from the last token to plus
  infinity; otherwise it holds bounded ranges only.
\<close>

theorem ranges_sorted_unwrapped:
  assumes "ring_wf tm" and "sorted_tokens tm \<noteq> []"
  shows "(\<exists>ret. get_ranges calc ep tm = Inr ret
            \<and> sorted_unwrapped (sorted_tokens tm)
                 (ep \<in> set (calc (hd (sorted_tokens tm)) tm)) ret)
       \<and> (\<exists>ret. get_primary_ranges calc ep tm = Inr ret
            \<and> sorted_unwrapped (sorted_tokens tm)
                 (calc (hd (sorted_tokens tm)) tm \<noteq> [] \<and> hd (calc (hd (sorted_tokens tm)) tm) = ep) ret)"
proof -
  from assms(2) obtain t0 ts where toks: "sorted_tokens tm = t0 # ts"
    by (cases "sorted_tokens tm") auto
  with assms(1) have srt: "sorted_wrt (<) (t0 # ts)" by (simp add: ring_wf_def)
  have prim: "(0 < length (calc t0 tm) \<and> calc t0 tm ! 0 = ep)
      \<longleftrightarrow> (calc t0 tm \<noteq> [] \<and> hd (calc t0 tm) = ep)"
    by (cases "calc t0 tm") auto
  have "sorted_unwrapped (t0 # ts) (ep \<in> set (calc t0 tm))
      (get_ranges_loop calc ep tm (last (t0 # ts)) (t0 # ts) [])"
    unfolding get_ranges_loop_emit
    by (rule emit_all_sorted_unwrapped [OF srt, of "\<lambda>tok. ep \<in> set (calc tok tm)"])
  moreover have "sorted_unwrapped (t0 # ts) (calc t0 tm \<noteq> [] \<and> hd (calc t0 tm) = ep)
      (get_primary_ranges_loop calc ep tm (last (t0 # ts)) (t0 # ts) [])"
    unfolding get_primary_ranges_loop_emit
    using emit_all_sorted_unwrapped [OF srt, of "\<lambda>tok. 0 < length (calc tok tm) \<and> calc tok tm ! 0 = ep"]
    unfolding prim .
  ultimately show ?thesis
    by (simp add: get_ranges_def get_primary_ranges_def toks del: last.simps get_ranges_loop.simps get_primary_ranges_loop.simps)
qed

theorem ranges_sorted_unwrapped_witness:
  "ring_wf ring3 \<and> sorted_tokens ring3 \<noteq> []
   \<and> (\<exists>ret. get_ranges single_replica_policy 1 ring3 = Inr ret
          \<and> sorted_unwrapped (sorted_tokens ring3)
               (1 \<in> set (single_replica_policy (hd (sorted_tokens ring3)) ring3)) ret)
   \<and> (\<exists>ret. get_primary_ranges single_replica_policy 1 ring3 = Inr ret
          \<and> sorted_unwrapped (sorted_tokens ring3)
               (single_replica_policy (hd (sorted_tokens ring3)) ring3 \<noteq> []
                \<and> hd (single_replica_policy (hd (sorted_tokens ring3)) ring3) = 1) ret)"
proof -
  have wf: "ring_wf ring3" by (simp add: ring_wf_def ring3_def)
  have ne: "sorted_tokens ring3 \<noteq> []" by (simp add: ring3_def)
  from wf ne ranges_sorted_unwrapped [OF wf ne, of single_replica_policy 1]
  show ?thesis by blast
qed

text \<open>
  C3. On the ring with tokens 10, 50 and 90, owned by the distinct nodes 1, 2 and 3 under
  single-replica placement, the ranges of node 1 (the owner of token 10) are the wrapped
  range from 90 to 10 as the piece from minus infinity to 10, inclusive, followed by the
  piece from 90, exclusive, to plus infinity; \<^verbatim>\<open>get_primary_ranges\<close> gives the same.
\<close>

theorem ring3_wrapped_range:
  "get_ranges single_replica_policy 1 ring3 =
     Inr [Token_range None (Some (Bound 10 True)), Token_range (Some (Bound 90 False)) None]
   \<and> get_primary_ranges single_replica_policy 1 ring3 =
     Inr [Token_range None (Some (Bound 10 True)), Token_range (Some (Bound 90 False)) None]"
  by (simp add: get_ranges_def get_primary_ranges_def ring3_def single_replica_policy_def
      first_token_def insert_token_range_to_sorted_container_while_unwrapping_def)

subsection \<open>Which ranges are emitted\<close>

lemma set_insert_token_range:
  "set (insert_token_range_to_sorted_container_while_unwrapping prev_tok tok ret) =
     set ret \<union>
     (if prev_tok < tok then {Token_range (Some (Bound prev_tok False)) (Some (Bound tok True))}
      else {Token_range None (Some (Bound tok True)), Token_range (Some (Bound prev_tok False)) None})"
proof -
  have "set (take n ret) \<union> set (drop n ret) = set ret" for n
    by (metis append_take_drop_id set_append)
  then show ?thesis
    by (auto simp: insert_token_range_to_sorted_container_while_unwrapping_def Let_def)
qed

lemma emit_loop_ends:
  "(\<exists>r\<in>set (emit_loop P prev_tok toks ret). range_end r = Some b) \<longleftrightarrow>
     (\<exists>r\<in>set ret. range_end r = Some b) \<or> (\<exists>t\<in>set toks. P t \<and> b = Bound t True)"
proof (induction toks arbitrary: prev_tok ret)
  case Nil
  then show ?case by simp
next
  case (Cons tok toks)
  show ?case
    unfolding emit_loop.simps Cons.IH
    by (auto simp: set_insert_token_range)
qed

subsection \<open>The ranges of a walk, token by token\<close>

lemma mset_insert_token_range:
  "mset (insert_token_range_to_sorted_container_while_unwrapping prev_tok tok ret) =
     mset ret + mset (token_pieces prev_tok tok)"
proof -
  have "mset (take n ret) + mset (drop n ret) = mset ret" for n
    by (metis append_take_drop_id mset_append)
  then show ?thesis
    by (auto simp: insert_token_range_to_sorted_container_while_unwrapping_def Let_def
        token_pieces_def add.assoc [symmetric])
qed

lemma mset_emit_loop:
  "mset (emit_loop P prev_tok toks ret) = mset ret + mset (expected_ranges P prev_tok toks)"
  by (induction toks arbitrary: prev_tok ret) (simp_all add: mset_insert_token_range)

lemma emit_all_unwrapped_ranges:
  "sorted_wrt (<) toks \<Longrightarrow> toks \<noteq> [] \<Longrightarrow>
   emit_loop P (last toks) toks [] = unwrapped_ranges P toks"
  by (cases toks) (simp_all add: unwrapped_ranges_def emit_all del: emit_loop.simps last.simps)

text \<open>
  C5. On a non-empty ring \<^verbatim>\<open>get_primary_ranges\<close> returns exactly the ranges the spec asks
  for: a token whose endpoint list is non-empty and has the address at index 0 contributes
  the range from its predecessor to itself (the first token's as the two unbounded pieces),
  and a token for which the address is a later replica, or none, contributes no range at
  all. On a strictly increasing token vector the collection is these ranges in start order.
  In particular a range ends, inclusively, at \<open>t\<close> exactly when \<open>t\<close> is a token of the ring
  with the address at index 0 of its endpoint list.
\<close>

theorem primary_range_emitted_iff:
  assumes "sorted_tokens tm \<noteq> []"
  shows "\<exists>ret. get_primary_ranges calc ep tm = Inr ret
           \<and> mset ret = mset (expected_ranges
                 (\<lambda>tok. 0 < length (calc tok tm) \<and> calc tok tm ! 0 = ep)
                 (last (sorted_tokens tm)) (sorted_tokens tm))
           \<and> (ring_wf tm \<longrightarrow>
                ret = unwrapped_ranges
                  (\<lambda>tok. 0 < length (calc tok tm) \<and> calc tok tm ! 0 = ep) (sorted_tokens tm))
           \<and> ((\<exists>r\<in>set ret. range_end r = Some (Bound t True)) \<longleftrightarrow>
                t \<in> set (sorted_tokens tm) \<and> 0 < length (calc t tm) \<and> calc t tm ! 0 = ep)"
proof -
  let ?P = "\<lambda>tok. 0 < length (calc tok tm) \<and> calc tok tm ! 0 = ep"
  let ?ret = "emit_loop ?P (last (sorted_tokens tm)) (sorted_tokens tm) []"
  have r: "get_primary_ranges calc ep tm = Inr ?ret"
    by (simp add: get_primary_ranges_def get_primary_ranges_loop_emit)
  have m: "mset ?ret = mset (expected_ranges ?P (last (sorted_tokens tm)) (sorted_tokens tm))"
    by (simp add: mset_emit_loop)
  have w: "ring_wf tm \<longrightarrow> ?ret = unwrapped_ranges ?P (sorted_tokens tm)"
    using assms by (simp add: ring_wf_def emit_all_unwrapped_ranges)
  have e: "(\<exists>r\<in>set ?ret. range_end r = Some (Bound t True)) \<longleftrightarrow>
      t \<in> set (sorted_tokens tm) \<and> 0 < length (calc t tm) \<and> calc t tm ! 0 = ep"
    unfolding emit_loop_ends by auto
  from r m w e show ?thesis by blast
qed

theorem primary_range_emitted_iff_witness:
  "sorted_tokens ring3 \<noteq> [] \<and> ring_wf ring3
   \<and> get_primary_ranges single_replica_policy 2 ring3
       = Inr [Token_range (Some (Bound 10 False)) (Some (Bound 50 True))]
   \<and> get_primary_ranges single_replica_policy 1 ring3
       = Inr [Token_range None (Some (Bound 10 True)), Token_range (Some (Bound 90 False)) None]
   \<and> get_primary_ranges single_replica_policy 9 ring3 = Inr []"
proof -
  have ne: "sorted_tokens ring3 \<noteq> []" by (simp add: ring3_def)
  have wf: "ring_wf ring3" by (simp add: ring_wf_def ring3_def)
  have u: "unwrapped_ranges
      (\<lambda>tok. 0 < length (single_replica_policy tok ring3) \<and> single_replica_policy tok ring3 ! 0 = n)
      (sorted_tokens ring3)
    = (if n = 1 then [Token_range None (Some (Bound 10 True))] else [])
      @ (if n = 2 then [Token_range (Some (Bound 10 False)) (Some (Bound 50 True))] else [])
      @ (if n = 3 then [Token_range (Some (Bound 50 False)) (Some (Bound 90 True))] else [])
      @ (if n = 1 then [Token_range (Some (Bound 90 False)) None] else [])" for n :: nat
    by (simp add: unwrapped_ranges_def ring3_def single_replica_policy_def first_token_def)
  from primary_range_emitted_iff [OF ne, of single_replica_policy 2] wf u [of 2]
  have a: "get_primary_ranges single_replica_policy 2 ring3
       = Inr [Token_range (Some (Bound 10 False)) (Some (Bound 50 True))]"
    by auto
  from primary_range_emitted_iff [OF ne, of single_replica_policy 1] wf u [of 1]
  have b: "get_primary_ranges single_replica_policy 1 ring3
       = Inr [Token_range None (Some (Bound 10 True)), Token_range (Some (Bound 90 False)) None]"
    by auto
  from primary_range_emitted_iff [OF ne, of single_replica_policy 9] wf u [of 9]
  have c: "get_primary_ranges single_replica_policy 9 ring3 = Inr []"
    by auto
  from ne wf a b c show ?thesis by simp
qed

subsection \<open>Primary ranges partition the token space\<close>

lemma cover_count_append: "cover_count (xs @ ys) x = cover_count xs x + cover_count ys x"
  by (simp add: cover_count_def)

lemma cover_count_bounded_pieces:
  "sorted_wrt (<) ((prev_tok::'t::linorder) # toks) \<Longrightarrow>
   cover_count (bounded_pieces P prev_tok toks) x =
     (case find (\<lambda>t. x \<le> t) toks of
        Some b \<Rightarrow> if prev_tok < x \<and> P b then 1 else 0
      | None \<Rightarrow> 0)"
proof (induction toks arbitrary: prev_tok)
  case Nil
  then show ?case by (simp add: cover_count_def)
next
  case (Cons tok toks)
  from Cons.prems have lt: "prev_tok < tok" and srt: "sorted_wrt (<) (tok # toks)" by auto
  let ?r = "Token_range (Some (Bound prev_tok False)) (Some (Bound tok True))"
  have r: "range_contains ?r x \<longleftrightarrow> prev_tok < x \<and> x \<le> tok"
    by (auto simp: range_contains_def after_start_def before_end_def)
  have split: "cover_count (bounded_pieces P prev_tok (tok # toks)) x =
      (if P tok \<and> prev_tok < x \<and> x \<le> tok then 1 else 0)
      + cover_count (bounded_pieces P tok toks) x"
    using r by (simp add: cover_count_def)
  show ?case
  proof (cases "x \<le> tok")
    case True
    then have "\<not> tok < x" by simp
    with True show ?thesis
      unfolding split Cons.IH [OF srt] by (simp split: option.splits)
  next
    case False
    then have "prev_tok < x" "tok < x" using lt by auto
    with False show ?thesis
      unfolding split Cons.IH [OF srt] by (simp split: option.splits)
  qed
qed

lemma cover_count_emit_all:
  assumes "sorted_wrt (<) ((t0::'t::linorder) # ts)"
  shows "cover_count (emit_loop P (last (t0 # ts)) (t0 # ts) []) x =
     (if P (case find (\<lambda>t. x \<le> t) (t0 # ts) of Some b \<Rightarrow> b | None \<Rightarrow> t0) then 1 else 0)"
proof -
  let ?lo = "Token_range None (Some (Bound t0 True))"
  let ?hi = "Token_range (Some (Bound (last (t0 # ts)) False)) None"
  have lo: "cover_count [?lo] x = (if x \<le> t0 then 1 else 0)"
    by (auto simp: cover_count_def range_contains_def after_start_def before_end_def)
  have hi: "cover_count [?hi] x = (if last (t0 # ts) < x then 1 else 0)"
    by (auto simp: cover_count_def range_contains_def after_start_def before_end_def)
  have mid: "cover_count (bounded_pieces P t0 ts) x =
     (case find (\<lambda>t. x \<le> t) ts of Some b \<Rightarrow> if t0 < x \<and> P b then 1 else 0 | None \<Rightarrow> 0)"
    by (rule cover_count_bounded_pieces [OF assms])
  have total: "cover_count (emit_loop P (last (t0 # ts)) (t0 # ts) []) x =
      (if P t0 then cover_count [?lo] x else 0) + cover_count (bounded_pieces P t0 ts) x
      + (if P t0 then cover_count [?hi] x else 0)"
    unfolding emit_all [OF assms] by (simp add: cover_count_append) (simp add: cover_count_def)
  have first_le_last: "t0 \<le> last (t0 # ts)"
    by (rule sorted_last_greatest [OF assms]) simp
  show ?thesis
  proof (cases "x \<le> t0")
    case True
    then have "\<not> last (t0 # ts) < x" "\<not> t0 < x" using first_le_last by auto
    with True show ?thesis
      unfolding total lo hi mid by (simp split: option.splits)
  next
    case False
    then have t0x: "t0 < x" by simp
    show ?thesis
    proof (cases "find (\<lambda>t. x \<le> t) ts")
      case None
      then have "\<forall>t\<in>set ts. t < x" by (auto simp: find_None_iff)
      with t0x have "\<forall>t\<in>set (t0 # ts). t < x" by simp
      moreover have "last (t0 # ts) \<in> set (t0 # ts)" by (rule last_in_set) simp
      ultimately have "last (t0 # ts) < x" by blast
      with False None show ?thesis
        unfolding total lo hi mid by simp
    next
      case (Some b)
      then have "b \<in> set ts" "x \<le> b" by (auto simp: find_Some_iff)
      with sorted_last_greatest [OF assms, of b] have "\<not> last (t0 # ts) < x" by auto
      with False Some t0x show ?thesis
        unfolding total lo hi mid by simp
    qed
  qed
qed

lemma first_token_in_ring:
  "first_token tm x = Inr k \<Longrightarrow> k \<in> set (sorted_tokens tm)"
  by (auto simp: first_token_def find_Some_iff split: list.splits option.splits if_splits)

text \<open>
  C6. On a well-formed, non-empty ring whose every token has a non-empty endpoint list,
  every token \<open>x\<close> of the token space has a bucket key \<open>k\<close>, and \<open>x\<close> lies in exactly one
  primary range of the first endpoint of \<open>k\<close> and in no primary range of any other address.
  So the primary ranges of one node are pairwise disjoint, and over all nodes they cover the
  token space exactly once.
\<close>

theorem primary_ranges_partition:
  assumes "ring_wf tm" and "sorted_tokens tm \<noteq> []"
    and "\<forall>t\<in>set (sorted_tokens tm). calc t tm \<noteq> []"
  shows "\<exists>k. first_token tm x = Inr k
           \<and> (\<forall>ep. \<exists>ret. get_primary_ranges calc ep tm = Inr ret
                  \<and> cover_count ret x = (if ep = hd (calc k tm) then 1 else 0))"
proof -
  from assms(2) obtain t0 ts where toks: "sorted_tokens tm = t0 # ts"
    by (cases "sorted_tokens tm") auto
  with assms(1) have srt: "sorted_wrt (<) (t0 # ts)" by (simp add: ring_wf_def)
  define k where "k = (case find (\<lambda>t. x \<le> t) (t0 # ts) of Some b \<Rightarrow> b | None \<Rightarrow> t0)"
  have ft: "first_token tm x = Inr k"
    by (simp add: first_token_def toks k_def split: option.splits)
  from first_token_in_ring [OF ft] assms(3) have ne: "calc k tm \<noteq> []" by blast
  have prim: "(0 < length (calc k tm) \<and> calc k tm ! 0 = ep) \<longleftrightarrow> ep = hd (calc k tm)" for ep
    using ne by (cases "calc k tm") auto
  have "cover_count (get_primary_ranges_loop calc ep tm (last (t0 # ts)) (t0 # ts) []) x
      = (if ep = hd (calc k tm) then 1 else 0)" for ep
    unfolding get_primary_ranges_loop_emit
    using cover_count_emit_all [OF srt, of "\<lambda>tok. 0 < length (calc tok tm) \<and> calc tok tm ! 0 = ep" x]
    unfolding k_def [symmetric] prim .
  with ft show ?thesis
    by (simp add: get_primary_ranges_def toks
        del: last.simps get_primary_ranges_loop.simps)
qed

theorem primary_ranges_partition_witness:
  "ring_wf ring3 \<and> sorted_tokens ring3 \<noteq> []
   \<and> list_all (\<lambda>t. single_replica_policy t ring3 \<noteq> []) (sorted_tokens ring3)
   \<and> first_token ring3 95 = Inr 10
   \<and> hd (single_replica_policy 10 ring3) = 1
   \<and> (\<exists>ret. get_primary_ranges single_replica_policy 1 ring3 = Inr ret \<and> cover_count ret 95 = 1)
   \<and> (\<exists>ret. get_primary_ranges single_replica_policy 3 ring3 = Inr ret \<and> cover_count ret 95 = 0)"
proof -
  have wf: "ring_wf ring3" by (simp add: ring_wf_def ring3_def)
  have ne: "sorted_tokens ring3 \<noteq> []" by (simp add: ring3_def)
  have eps: "\<forall>t\<in>set (sorted_tokens ring3). single_replica_policy t ring3 \<noteq> []"
    by (simp add: ring3_def single_replica_policy_def first_token_def)
  have ft: "first_token ring3 95 = Inr 10" by (simp add: ring3_def first_token_def)
  have h: "hd (single_replica_policy 10 ring3) = 1"
    by (simp add: ring3_def single_replica_policy_def first_token_def)
  from primary_ranges_partition [where tm = ring3 and calc = single_replica_policy and x = 95, OF wf ne eps] ft h
  have "\<forall>ep. \<exists>ret. get_primary_ranges single_replica_policy ep ring3 = Inr ret
          \<and> cover_count ret 95 = (if ep = 1 then 1 else 0)"
    by simp
  then have "(\<exists>ret. get_primary_ranges single_replica_policy 1 ring3 = Inr ret \<and> cover_count ret 95 = 1)
    \<and> (\<exists>ret. get_primary_ranges single_replica_policy 3 ring3 = Inr ret \<and> cover_count ret 95 = 0)"
    by (metis one_neq_zero numeral_eq_one_iff semiring_norm(86))
  with wf ne eps ft h show ?thesis by (simp add: list_all_iff)
qed

subsection \<open>Empty endpoint lists\<close>

lemma expected_ranges_never:
  "\<forall>t\<in>set toks. \<not> P t \<Longrightarrow> expected_ranges P prev_tok toks = []"
  by (induction toks arbitrary: prev_tok) simp_all

text \<open>
  C8, as the code has it. On a non-empty ring \<^verbatim>\<open>get_ranges\<close> and \<^verbatim>\<open>get_primary_ranges\<close>
  return a collection whatever the policy answers, and an empty endpoint list raises
  nothing: the collection holds exactly the ranges of the tokens whose endpoint list is
  non-empty and contains the address (for the primary ranges: has it at index 0), so a
  token with an empty list contributes no range. On a strictly increasing token vector the
  collection is these ranges in start order, and when every list is empty it is empty.
\<close>

theorem ranges_total_on_nonempty_ring:
  assumes "sorted_tokens tm \<noteq> []"
  shows "(\<exists>ret. get_ranges calc ep tm = Inr ret
            \<and> mset ret = mset (expected_ranges
                  (\<lambda>tok. calc tok tm \<noteq> [] \<and> ep \<in> set (calc tok tm))
                  (last (sorted_tokens tm)) (sorted_tokens tm))
            \<and> (ring_wf tm \<longrightarrow>
                 ret = unwrapped_ranges
                   (\<lambda>tok. calc tok tm \<noteq> [] \<and> ep \<in> set (calc tok tm)) (sorted_tokens tm)))
       \<and> (\<exists>ret. get_primary_ranges calc ep tm = Inr ret
            \<and> mset ret = mset (expected_ranges
                  (\<lambda>tok. calc tok tm \<noteq> [] \<and> calc tok tm ! 0 = ep)
                  (last (sorted_tokens tm)) (sorted_tokens tm))
            \<and> (ring_wf tm \<longrightarrow>
                 ret = unwrapped_ranges
                   (\<lambda>tok. calc tok tm \<noteq> [] \<and> calc tok tm ! 0 = ep) (sorted_tokens tm)))
       \<and> ((\<forall>t\<in>set (sorted_tokens tm). calc t tm = []) \<longrightarrow>
            get_ranges calc ep tm = Inr [] \<and> get_primary_ranges calc ep tm = Inr [])"
proof -
  have P1: "(\<lambda>tok. ep \<in> set (calc tok tm)) = (\<lambda>tok. calc tok tm \<noteq> [] \<and> ep \<in> set (calc tok tm))"
    by auto
  have P2: "(\<lambda>tok. 0 < length (calc tok tm) \<and> calc tok tm ! 0 = ep)
      = (\<lambda>tok. calc tok tm \<noteq> [] \<and> calc tok tm ! 0 = ep)"
    by auto
  have A: "get_ranges calc ep tm = Inr (emit_loop
      (\<lambda>tok. calc tok tm \<noteq> [] \<and> ep \<in> set (calc tok tm))
      (last (sorted_tokens tm)) (sorted_tokens tm) [])"
    by (simp add: get_ranges_def get_ranges_loop_emit P1 [symmetric])
  have B: "get_primary_ranges calc ep tm = Inr (emit_loop
      (\<lambda>tok. calc tok tm \<noteq> [] \<and> calc tok tm ! 0 = ep)
      (last (sorted_tokens tm)) (sorted_tokens tm) [])"
    by (simp add: get_primary_ranges_def get_primary_ranges_loop_emit P2)
  have W: "ring_wf tm \<longrightarrow> emit_loop P (last (sorted_tokens tm)) (sorted_tokens tm) []
      = unwrapped_ranges P (sorted_tokens tm)" for P
    using assms by (simp add: ring_wf_def emit_all_unwrapped_ranges)
  have E: "emit_loop P (last (sorted_tokens tm)) (sorted_tokens tm) [] = []"
    if "\<forall>t\<in>set (sorted_tokens tm). \<not> P t" for P
    using mset_emit_loop [of P "last (sorted_tokens tm)" "sorted_tokens tm" "[]"]
      expected_ranges_never [OF that]
    by simp
  have C: "(\<forall>t\<in>set (sorted_tokens tm). calc t tm = []) \<longrightarrow>
      get_ranges calc ep tm = Inr [] \<and> get_primary_ranges calc ep tm = Inr []"
    unfolding A B by (auto intro!: E)
  show ?thesis
    unfolding A B using W C unfolding A B by (simp add: mset_emit_loop)
qed

theorem ranges_total_on_nonempty_ring_witness:
  "sorted_tokens ring3 \<noteq> [] \<and> ring_wf ring3 \<and> gap_policy 50 ring3 = []
   \<and> get_ranges gap_policy 1 ring3 =
       Inr [Token_range None (Some (Bound 10 True)),
            Token_range (Some (Bound 50 False)) (Some (Bound 90 True)),
            Token_range (Some (Bound 90 False)) None]
   \<and> get_primary_ranges gap_policy 1 ring3 =
       Inr [Token_range None (Some (Bound 10 True)),
            Token_range (Some (Bound 50 False)) (Some (Bound 90 True)),
            Token_range (Some (Bound 90 False)) None]"
proof -
  have ne: "sorted_tokens ring3 \<noteq> []" by (simp add: ring3_def)
  have wf: "ring_wf ring3" by (simp add: ring_wf_def ring3_def)
  have g: "gap_policy 50 ring3 = []" by (simp add: gap_policy_def)
  have u1: "unwrapped_ranges (\<lambda>tok. gap_policy tok ring3 \<noteq> [] \<and> 1 \<in> set (gap_policy tok ring3))
      (sorted_tokens ring3)
    = [Token_range None (Some (Bound 10 True)),
       Token_range (Some (Bound 50 False)) (Some (Bound 90 True)),
       Token_range (Some (Bound 90 False)) None]"
    by (simp add: unwrapped_ranges_def ring3_def gap_policy_def)
  have u2: "unwrapped_ranges (\<lambda>tok. gap_policy tok ring3 \<noteq> [] \<and> gap_policy tok ring3 ! 0 = 1)
      (sorted_tokens ring3)
    = [Token_range None (Some (Bound 10 True)),
       Token_range (Some (Bound 50 False)) (Some (Bound 90 True)),
       Token_range (Some (Bound 90 False)) None]"
    by (simp add: unwrapped_ranges_def ring3_def gap_policy_def)
  from ranges_total_on_nonempty_ring [OF ne, of gap_policy 1] wf u1 u2
  have "get_ranges gap_policy 1 ring3 =
       Inr [Token_range None (Some (Bound 10 True)),
            Token_range (Some (Bound 50 False)) (Some (Bound 90 True)),
            Token_range (Some (Bound 90 False)) None]
   \<and> get_primary_ranges gap_policy 1 ring3 =
       Inr [Token_range None (Some (Bound 10 True)),
            Token_range (Some (Bound 50 False)) (Some (Bound 90 True)),
            Token_range (Some (Bound 90 False)) None]"
    by auto
  with ne wf g show ?thesis by simp
qed

text \<open>
  The claim as stated fails: with a policy that returns the empty endpoint list for every
  token of the ring 10, 50, 90, both operations return normally, with the empty collection.
\<close>

theorem empty_endpoints_no_error:
  "get_ranges empty_policy (1::nat) ring3 = Inr []
   \<and> get_primary_ranges empty_policy (1::nat) ring3 = Inr []
   \<and> empty_policy 10 ring3 = ([]::nat list)"
  by (simp add: get_ranges_def get_primary_ranges_def ring3_def empty_policy_def)

section \<open>The replacement filter: proofs\<close>

lemma remove_if_loop_filter:
  "first \<le> i \<Longrightarrow> i \<le> length xs \<Longrightarrow> remove_if_loop p xs first i = (v, it) \<Longrightarrow>
   take it v = take first xs @ filter (\<lambda>x. \<not> p x) (drop i xs)"
proof (induction p xs first i rule: remove_if_loop.induct)
  case (1 p xs first i)
  show ?case
  proof (cases "i < length xs")
    case False
    with "1.prems" show ?thesis by simp
  next
    case True
    note inb = True
    have dr: "drop i xs = xs ! i # drop (Suc i) xs"
      using inb by (simp add: Cons_nth_drop_Suc)
    show ?thesis
    proof (cases "p (xs ! i)")
      case True
      with inb "1.prems" have "remove_if_loop p xs first (Suc i) = (v, it)" by simp
      with "1.IH"(2) [OF inb] True "1.prems" inb
      have "take it v = take first xs @ filter (\<lambda>x. \<not> p x) (drop (Suc i) xs)" by simp
      with True dr show ?thesis by simp
    next
      case False
      let ?xs = "xs[first := xs ! i]"
      from False inb "1.prems" have run: "remove_if_loop p ?xs (Suc first) (Suc i) = (v, it)"
        by simp
      have "take it v = take (Suc first) ?xs @ filter (\<lambda>x. \<not> p x) (drop (Suc i) ?xs)"
        using "1.IH"(1) [OF inb False _ _ run] "1.prems" inb by simp
      moreover have "take (Suc first) ?xs = take first xs @ [xs ! i]"
        using "1.prems" inb by (simp add: take_Suc_conv_app_nth)
      moreover have "drop (Suc i) ?xs = drop (Suc i) xs"
        using "1.prems" by simp
      ultimately show ?thesis using False dr by simp
    qed
  qed
qed

lemma remove_if_erase:
  "remove_if p xs = (v, it) \<Longrightarrow> erase_to_end v it = filter (\<lambda>x. \<not> p x) xs"
  using remove_if_loop_filter [of 0 0 xs p v it]
  by (simp add: remove_if_def erase_to_end_def)

lemma without_node_being_replaced_eq:
  "get_natural_endpoints_without_node_being_replaced calc allow tm st t =
     (case get_natural_endpoints calc tm st t of
        (Inl e, st') \<Rightarrow> (Inl e, st')
      | (Inr eps, st') \<Rightarrow>
          (Inr (if is_any_node_being_replaced tm \<and> allow
                then filter (\<lambda>a. \<not> is_being_replaced tm a) eps else eps), st'))"
  by (auto simp: get_natural_endpoints_without_node_being_replaced_def remove_if_erase
      split: prod.splits sum.splits)

lemma find_filter_hd:
  "find P xs = (if filter P xs = [] then None else Some (hd (filter P xs)))"
  by (induction xs) auto

lemma get_natural_endpoints_cached:
  "get_natural_endpoints calc tm st t = (Inr eps, st') \<Longrightarrow>
   \<exists>k. first_token tm t = Inr k \<and> cached_endpoints st' k = Some eps"
  by (auto simp: get_natural_endpoints_def Let_def split: sum.splits option.splits)

text \<open>
  C4. The filtered lookup returns the list of \<^verbatim>\<open>get_natural_endpoints\<close> with every address
  marked as being replaced removed when some node is being replaced and the policy allows
  the filter, and that list unchanged otherwise. The members of the strategy afterwards are
  those that \<^verbatim>\<open>get_natural_endpoints\<close> leaves: the cache still holds the unfiltered list
  under the bucket key. So a being-replaced address among the natural endpoints is absent
  from the filtered result and present in the unfiltered one and in the cache.
\<close>

theorem without_node_being_replaced_filters:
  assumes "get_natural_endpoints calc tm st t = (Inr eps, st')"
  shows "get_natural_endpoints_without_node_being_replaced calc allow tm st t =
           (Inr (if is_any_node_being_replaced tm \<and> allow
                 then filter (\<lambda>a. \<not> is_being_replaced tm a) eps else eps), st')
         \<and> (\<exists>k. first_token tm t = Inr k \<and> cached_endpoints st' k = Some eps)
         \<and> (\<forall>a res. is_being_replaced tm a \<and> a \<in> set eps \<and> allow
               \<and> fst (get_natural_endpoints_without_node_being_replaced calc allow tm st t) = Inr res
               \<longrightarrow> a \<notin> set res \<and> is_any_node_being_replaced tm)
         \<and> (\<forall>a res. a \<in> set eps \<and> \<not> (is_any_node_being_replaced tm \<and> allow)
               \<and> fst (get_natural_endpoints_without_node_being_replaced calc allow tm st t) = Inr res
               \<longrightarrow> a \<in> set res)"
proof -
  have any: "is_any_node_being_replaced tm" if "is_being_replaced tm a" for a
    using that by (auto simp: is_being_replaced_def is_any_node_being_replaced_def)
  show ?thesis
    using assms get_natural_endpoints_cached [OF assms] any
    by (auto simp: without_node_being_replaced_eq)
qed

theorem without_node_being_replaced_filters_witness:
  "get_natural_endpoints single_replica_policy ring3_replacing initial_state 5 = (Inr [1],
      \<lparr>cached_endpoints = [10 \<mapsto> [1]], last_invalidated_ring_version = 1, cache_hits_count = 0\<rparr>)
   \<and> is_being_replaced ring3_replacing 1
   \<and> get_natural_endpoints_without_node_being_replaced single_replica_policy True
        ring3_replacing initial_state 5 = (Inr [],
      \<lparr>cached_endpoints = [10 \<mapsto> [1]], last_invalidated_ring_version = 1, cache_hits_count = 0\<rparr>)
   \<and> get_natural_endpoints_without_node_being_replaced single_replica_policy False
        ring3_replacing initial_state 5 = (Inr [1],
      \<lparr>cached_endpoints = [10 \<mapsto> [1]], last_invalidated_ring_version = 1, cache_hits_count = 0\<rparr>)"
proof -
  have g: "get_natural_endpoints single_replica_policy ring3_replacing initial_state 5 = (Inr [1],
      \<lparr>cached_endpoints = [10 \<mapsto> [1]], last_invalidated_ring_version = 1, cache_hits_count = 0\<rparr>)"
    by (simp add: get_natural_endpoints_def get_cached_endpoints_def ring3_replacing_def
        ring3_def initial_state_def single_replica_policy_def first_token_def Let_def)
  have r: "is_being_replaced ring3_replacing 1" "is_any_node_being_replaced ring3_replacing"
    by (simp_all add: is_being_replaced_def is_any_node_being_replaced_def ring3_replacing_def)
  from without_node_being_replaced_filters [OF g, of True]
    without_node_being_replaced_filters [OF g, of False] g r
  show ?thesis by simp
qed

text \<open>
  C10. Where the filter applies, the result is the list of \<^verbatim>\<open>get_natural_endpoints\<close> with
  the being-replaced addresses deleted and nothing else changed: a subsequence of it, in the
  same order, whose head is the first natural endpoint that is not being replaced.
\<close>

theorem without_node_being_replaced_keeps_order:
  assumes "get_natural_endpoints calc tm st t = (Inr eps, st')"
    and "is_any_node_being_replaced tm" and "allow"
  shows "\<exists>res. fst (get_natural_endpoints_without_node_being_replaced calc allow tm st t) = Inr res
           \<and> res = filter (\<lambda>a. \<not> is_being_replaced tm a) eps
           \<and> subseq res eps
           \<and> find (\<lambda>a. \<not> is_being_replaced tm a) eps = (if res = [] then None else Some (hd res))"
  using assms by (simp add: without_node_being_replaced_eq find_filter_hd)

theorem without_node_being_replaced_keeps_order_witness:
  "get_natural_endpoints (\<lambda>t tm. [3, 1, 2, 1, 4]) ring3_replacing initial_state 5
     = (Inr [3, 1, 2, 1, 4],
        \<lparr>cached_endpoints = [10 \<mapsto> [3, 1, 2, 1, 4]], last_invalidated_ring_version = 1,
         cache_hits_count = 0\<rparr>)
   \<and> is_any_node_being_replaced ring3_replacing
   \<and> fst (get_natural_endpoints_without_node_being_replaced (\<lambda>t tm. [3, 1, 2, 1, 4]) True
        ring3_replacing initial_state 5) = Inr [3, 2, 4]"
proof -
  have g: "get_natural_endpoints (\<lambda>t tm. [3, 1, 2, 1, 4]) ring3_replacing initial_state 5
     = (Inr [3, 1, 2, 1, 4],
        \<lparr>cached_endpoints = [10 \<mapsto> [3, 1, 2, 1, 4]], last_invalidated_ring_version = 1,
         cache_hits_count = 0\<rparr>)"
    by (simp add: get_natural_endpoints_def get_cached_endpoints_def ring3_replacing_def
        ring3_def initial_state_def first_token_def Let_def)
  have r: "is_any_node_being_replaced ring3_replacing"
    by (simp add: is_any_node_being_replaced_def ring3_replacing_def)
  have f: "filter (\<lambda>a. \<not> is_being_replaced ring3_replacing a) [3, 1, 2, 1, 4] = [3, 2, 4]"
    by (simp add: is_being_replaced_def ring3_replacing_def)
  from without_node_being_replaced_keeps_order [OF g r, of True] g r f
  show ?thesis by simp
qed

section \<open>The endpoint cache: proofs\<close>

lemma first_token_nonempty:
  "sorted_tokens tm \<noteq> [] \<Longrightarrow> \<exists>k. first_token tm t = Inr k"
  by (auto simp: first_token_def split: list.splits option.splits)

lemma first_token_empty:
  "sorted_tokens tm = [] \<Longrightarrow> first_token tm t = Inl Runtime_error"
  by (simp add: first_token_def)

lemma first_token_idem:
  assumes "first_token tm t = Inr k"
  shows "first_token tm k = Inr k"
proof -
  from assms obtain t0 ts where toks: "sorted_tokens tm = t0 # ts"
    by (cases "sorted_tokens tm") (auto simp: first_token_def)
  show ?thesis
  proof (cases "find (\<lambda>x. t \<le> x) (t0 # ts)")
    case None
    with assms toks have "k = t0" by (simp add: first_token_def)
    then show ?thesis by (simp add: first_token_def toks)
  next
    case (Some b)
    with assms toks have "b = k" by (simp add: first_token_def)
    with Some obtain i where i: "i < length (t0 # ts)" "t \<le> (t0 # ts) ! i" "k = (t0 # ts) ! i"
      and before: "\<forall>j<i. \<not> t \<le> (t0 # ts) ! j"
      unfolding find_Some_iff by blast
    have "\<forall>j<i. \<not> k \<le> (t0 # ts) ! j"
    proof (intro allI impI)
      fix j assume "j < i"
      with before have "(t0 # ts) ! j < t" by auto
      with i(2,3) show "\<not> k \<le> (t0 # ts) ! j" by auto
    qed
    with i have "find (\<lambda>x. k \<le> x) (t0 # ts) = Some k"
      unfolding find_Some_iff by (intro exI [of _ i]) simp
    then show ?thesis unfolding first_token_def toks by simp
  qed
qed

lemma single_replica_policy_bucket_determined:
  "bucket_determined single_replica_policy"
  unfolding bucket_determined_def single_replica_policy_def
  by (auto dest: first_token_idem)

lemma get_cached_endpoints_valid:
  assumes "cache_inv calc tm st"
  shows "last_invalidated_ring_version (get_cached_endpoints tm st) = ring_version tm"
    and "cached_endpoints (get_cached_endpoints tm st) k = Some eps \<Longrightarrow> eps = calc k tm"
  using assms by (auto simp: get_cached_endpoints_def cache_inv_def split: if_splits)

lemma lookup_fresh:
  assumes bd: "bucket_determined calc" and inv: "cache_inv calc tm st"
    and ne: "sorted_tokens tm \<noteq> []"
  shows "fst (get_natural_endpoints calc tm st t) = Inr (calc t tm)"
    and "cache_inv calc tm (snd (get_natural_endpoints calc tm st t))"
proof -
  from first_token_nonempty [OF ne] obtain k where ft: "first_token tm t = Inr k" by blast
  with bd have same: "calc t tm = calc k tm" by (auto simp: bucket_determined_def)
  let ?st1 = "get_cached_endpoints tm st"
  note v = get_cached_endpoints_valid [OF inv]
  show "fst (get_natural_endpoints calc tm st t) = Inr (calc t tm)"
  proof (cases "cached_endpoints ?st1 k")
    case None
    with ft show ?thesis by (simp add: get_natural_endpoints_def Let_def)
  next
    case (Some res)
    with v(2) have "res = calc k tm" by blast
    with Some ft same show ?thesis by (simp add: get_natural_endpoints_def Let_def)
  qed
  show "cache_inv calc tm (snd (get_natural_endpoints calc tm st t))"
  proof (cases "cached_endpoints ?st1 k")
    case None
    with ft v same show ?thesis
      by (auto simp: get_natural_endpoints_def Let_def cache_inv_def)
  next
    case (Some res)
    with ft v show ?thesis
      by (auto simp: get_natural_endpoints_def Let_def cache_inv_def)
  qed
qed

lemma lookup_empty_ring:
  "sorted_tokens tm = [] \<Longrightarrow> get_natural_endpoints calc tm st t = (Inl Runtime_error, st)"
  by (simp add: get_natural_endpoints_def first_token_empty)

lemma lookup_preserves_inv:
  assumes "bucket_determined calc" and "cache_inv calc tm st"
  shows "cache_inv calc tm (snd (get_natural_endpoints calc tm st t))"
proof (cases "sorted_tokens tm = []")
  case True
  with assms(2) show ?thesis by (simp add: lookup_empty_ring)
next
  case False
  with assms show ?thesis by (rule lookup_fresh(2))
qed

lemma ring_change_preserves_inv:
  "cache_inv calc tm st \<Longrightarrow> ring_version tm < ring_version tm' \<Longrightarrow> cache_inv calc tm' st"
  by (simp add: cache_inv_def)

lemma run_preserves_inv:
  "bucket_determined calc \<Longrightarrow> versions_increase tm es \<Longrightarrow> cache_inv calc tm st \<Longrightarrow>
   run calc tm st es = (tm', st') \<Longrightarrow> cache_inv calc tm' st'"
proof (induction es arbitrary: tm st)
  case Nil
  then show ?case by simp
next
  case (Cons e es)
  show ?case
  proof (cases e)
    case (Ring_changed tm1)
    with Cons.prems have "cache_inv calc tm1 st" "versions_increase tm1 es"
      "run calc tm1 st es = (tm', st')"
      by (auto intro: ring_change_preserves_inv)
    with Cons.IH Cons.prems(1) show ?thesis by blast
  next
    case (Lookup t)
    with Cons.prems have "cache_inv calc tm (snd (get_natural_endpoints calc tm st t))"
      "versions_increase tm es"
      "run calc tm (snd (get_natural_endpoints calc tm st t)) es = (tm', st')"
      by (auto intro: lookup_preserves_inv)
    with Cons.IH Cons.prems(1) show ?thesis by blast
  qed
qed

lemma initial_state_inv: "cache_inv calc tm initial_state"
  by (simp add: cache_inv_def initial_state_def)

text \<open>
  C1, as the code has it. Take a policy whose answer depends on the search token only through
  its bucket key, and any history of a freshly built strategy in which every change of the
  ring raises the ring version. After it, on a non-empty ring, \<^verbatim>\<open>get_natural_endpoints\<close>
  returns for every token exactly what the policy computes for that token on the current
  ring. Histories include a change of the ring since the last lookup, and an earlier lookup
  of another token of the same bucket.
\<close>

theorem get_natural_endpoints_fresh:
  assumes "bucket_determined calc" and "versions_increase tm0 es"
    and "run calc tm0 initial_state es = (tm, st)"
    and "sorted_tokens tm \<noteq> []"
  shows "fst (get_natural_endpoints calc tm st t) = Inr (calc t tm)"
proof -
  have "cache_inv calc tm st"
    by (rule run_preserves_inv [OF assms(1) assms(2) initial_state_inv assms(3)])
  with assms(1) show ?thesis using assms(4) by (rule lookup_fresh(1))
qed

theorem get_natural_endpoints_fresh_witness:
  "bucket_determined (single_replica_policy :: (int, nat) policy)
   \<and> versions_increase ring3 [Lookup 95, Ring_changed ring3_moved, Lookup 95]
   \<and> fst (run single_replica_policy ring3 initial_state
            [Lookup 95, Ring_changed ring3_moved, Lookup 95]) = ring3_moved
   \<and> fst (get_natural_endpoints single_replica_policy ring3 initial_state 95) = Inr [1]
   \<and> fst (get_natural_endpoints single_replica_policy ring3_moved
        (snd (run single_replica_policy ring3 initial_state
            [Lookup 95, Ring_changed ring3_moved, Lookup 95])) 5) = Inr [4]
   \<and> single_replica_policy 5 ring3_moved = [4]"
proof -
  let ?es = "[Lookup 95, Ring_changed ring3_moved, Lookup 95]"
  let ?st = "snd (run single_replica_policy ring3 initial_state ?es)"
  have bd: "bucket_determined (single_replica_policy :: (int, nat) policy)"
    by (rule single_replica_policy_bucket_determined)
  have vi: "versions_increase ring3 ?es"
    by (simp add: ring3_def ring3_moved_def)
  have r: "run single_replica_policy ring3 initial_state ?es = (ring3_moved, ?st)"
    by (simp add: prod_eq_iff)
  have ne: "sorted_tokens ring3_moved \<noteq> []"
    by (simp add: ring3_def ring3_moved_def)
  have fresh: "single_replica_policy 5 ring3_moved = [4]"
    by (simp add: single_replica_policy_def first_token_def ring3_def ring3_moved_def)
  have old: "fst (get_natural_endpoints single_replica_policy ring3 initial_state 95) = Inr [1]"
    by (simp add: get_natural_endpoints_def get_cached_endpoints_def initial_state_def
        single_replica_policy_def first_token_def ring3_def Let_def)
  from get_natural_endpoints_fresh [OF bd vi r ne, of 5] bd vi r fresh old
  show ?thesis by simp
qed

text \<open>
  The claim as stated fails for a policy that looks at the search token itself. On the ring
  10, 50, 90 the tokens 5 and 7 share the bucket key 10; after a lookup of 5 the lookup of 7
  is a cache hit and returns the list computed for 5, not the one the policy computes for 7.
\<close>

theorem get_natural_endpoints_other_token_of_bucket:
  "first_token ring3 5 = Inr 10 \<and> first_token ring3 7 = Inr 10
   \<and> fst (get_natural_endpoints modulo_policy ring3
        (snd (get_natural_endpoints modulo_policy ring3 initial_state 5)) 7) = Inr [2]
   \<and> modulo_policy 7 ring3 = [1]"
  by (simp add: get_natural_endpoints_def get_cached_endpoints_def initial_state_def
      modulo_policy_def first_token_def ring3_def Let_def)

section \<open>Pending ranges: proofs\<close>

lemma ranges_of_address:
  "map snd (filter (\<lambda>x. fst x = address) (concat (map (\<lambda>ep. map (\<lambda>rng. (ep, rng)) r) eps))) =
   concat (map (\<lambda>ep. if ep = address then r else []) eps)"
proof (induction eps)
  case Nil
  then show ?case by simp
next
  case (Cons ep eps)
  have "map snd (filter (\<lambda>x. fst x = address) (map (\<lambda>rng. (ep, rng)) r)) =
      (if ep = address then r else [])"
    by (simp add: filter_map comp_def)
  with Cons show ?case by simp
qed

lemma address_ranges_attributed:
  "map snd (filter (\<lambda>x. fst x = address) (get_address_ranges calc sim)) =
   ranges_attributed_to calc sim address"
proof -
  have "map snd (filter (\<lambda>x. fst x = address) (concat (map f toks))) =
      concat (map (\<lambda>t. map snd (filter (\<lambda>x. fst x = address) (f t))) toks)"
    for f :: "'a \<Rightarrow> ('b \<times> 'a token_range) list" and toks
    by (induction toks) simp_all
  then show ?thesis
    by (simp add: get_address_ranges_def ranges_attributed_to_def Let_def ranges_of_address)
qed

text \<open>
  C7. A call of \<^verbatim>\<open>get_pending_address_ranges\<close> on a live ring of the store leaves the store
  as it was: the live ring, its version counter and its token vector are the same before
  and after. The ranges returned are, as a multiset, the ranges attributed to the candidate
  address on the simulated ring: the clone of the token map of the live ring with the
  candidate tokens inserted for the candidate address.
\<close>

theorem pending_address_ranges_frame:
  assumes "tm < length s"
  shows "snd (get_pending_address_ranges calc s tm pending_tokens pending_address) = s
       \<and> ring_version (snd (get_pending_address_ranges calc s tm pending_tokens pending_address) ! tm)
           = ring_version (s ! tm)
       \<and> sorted_tokens (snd (get_pending_address_ranges calc s tm pending_tokens pending_address) ! tm)
           = sorted_tokens (s ! tm)
       \<and> mset (fst (get_pending_address_ranges calc s tm pending_tokens pending_address))
           = mset (ranges_attributed_to calc
                (simulated_ring (s ! tm) pending_tokens pending_address) pending_address)"
proof -
  have frame: "snd (get_pending_address_ranges calc s tm pending_tokens pending_address) = s"
    by (simp add: get_pending_address_ranges_def Let_def)
  have res: "fst (get_pending_address_ranges calc s tm pending_tokens pending_address)
      = ranges_attributed_to calc
          (simulated_ring (s ! tm) pending_tokens pending_address) pending_address"
    by (simp add: get_pending_address_ranges_def Let_def address_ranges_attributed
        simulated_ring_def)
  from frame res show ?thesis by simp
qed

theorem pending_address_ranges_frame_witness:
  "(0::nat) < length [ring3]
   \<and> get_pending_address_ranges single_replica_policy [ring3] 0 [30, 95] 7 =
       ([Token_range (Some (Bound 10 False)) (Some (Bound 30 True)),
         Token_range (Some (Bound 90 False)) (Some (Bound 95 True))], [ring3])
   \<and> sorted_tokens (simulated_ring ring3 [30, 95] (7::nat)) = [10, 30, 50, 90, 95]
   \<and> ring_version (simulated_ring ring3 [30, 95] (7::nat)) = 1
   \<and> sorted_tokens ([ring3] ! 0) = [10, 50, 90]"
proof -
  have l: "(0::nat) < length [ring3]" by simp
  have toks: "sorted_tokens (simulated_ring ring3 [30, 95] (7::nat)) = [10, 30, 50, 90, 95]"
    by (simp add: simulated_ring_def update_normal_tokens_def clone_only_token_map_def ring3_def)
  have v: "ring_version (simulated_ring ring3 [30, 95] (7::nat)) = 1"
    by (simp add: simulated_ring_def update_normal_tokens_def clone_only_token_map_def)
  have m: "token_to_endpoint_map (simulated_ring ring3 [30, 95] (7::nat))
      = [10 \<mapsto> 1, 50 \<mapsto> 2, 90 \<mapsto> 3, 30 \<mapsto> 7, 95 \<mapsto> 7]"
    by (simp add: simulated_ring_def update_normal_tokens_def clone_only_token_map_def ring3_def)
  have pol: "single_replica_policy 10 (simulated_ring ring3 [30, 95] 7) = [1]"
    "single_replica_policy 30 (simulated_ring ring3 [30, 95] 7) = [7]"
    "single_replica_policy 50 (simulated_ring ring3 [30, 95] 7) = [2]"
    "single_replica_policy 90 (simulated_ring ring3 [30, 95] 7) = [3]"
    "single_replica_policy 95 (simulated_ring ring3 [30, 95] 7) = [7]"
    by (simp_all add: single_replica_policy_def first_token_def toks m)
  have primary: "get_primary_ranges_for (simulated_ring ring3 [30, 95] (7::nat)) 30
        = [Token_range (Some (Bound 10 False)) (Some (Bound 30 True))]"
    "get_primary_ranges_for (simulated_ring ring3 [30, 95] (7::nat)) 95
        = [Token_range (Some (Bound 90 False)) (Some (Bound 95 True))]"
    by (simp_all add: get_primary_ranges_for_def get_predecessor_def toks)
  have attr: "ranges_attributed_to single_replica_policy (simulated_ring ring3 [30, 95] 7) 7
      = [Token_range (Some (Bound 10 False)) (Some (Bound 30 True)),
         Token_range (Some (Bound 90 False)) (Some (Bound 95 True))]"
    by (simp add: ranges_attributed_to_def toks pol primary)
  have r3: "sorted_tokens ([ring3] ! 0) = [10, 50, 90]" by (simp add: ring3_def)
  have fst_eq: "fst (get_pending_address_ranges single_replica_policy [ring3] 0 [30, 95] 7)
      = ranges_attributed_to single_replica_policy (simulated_ring ring3 [30, 95] 7) 7"
    by (simp add: get_pending_address_ranges_def Let_def address_ranges_attributed
        simulated_ring_def)
  from pending_address_ranges_frame [OF l, of single_replica_policy "[30, 95]" 7]
  have "snd (get_pending_address_ranges single_replica_policy [ring3] 0 [30, 95] 7) = [ring3]"
    by simp
  with fst_eq attr have "get_pending_address_ranges single_replica_policy [ring3] 0 [30, 95] 7 =
       ([Token_range (Some (Bound 10 False)) (Some (Bound 30 True)),
         Token_range (Some (Bound 90 False)) (Some (Bound 95 True))], [ring3])"
    by (simp add: prod_eq_iff)
  with l toks v r3 show ?thesis by simp
qed

end
